theory Spec2Isabelle
  imports Main
begin

section \<open>Rectangle\<close>

text \<open>
  \<^verbatim>\<open>function Rectangle(width, height)\<close> returns an object literal with the two data
  fields \<^verbatim>\<open>width\<close> and \<^verbatim>\<open>height\<close> and a method \<^verbatim>\<open>getArea\<close> whose body
  \<^verbatim>\<open>return width * height\<close> refers to the parameters of the constructor call, not to
  the fields of the object. The record therefore keeps the two fields and, apart from
  them, the two variables that the closure captured. The type of numbers and its
  multiplication are left abstract (any type of class \<open>times\<close>), so that nothing depends
  on how the product of two numbers is computed.
\<close>

record 'a rectangle =
  width :: 'a
  height :: 'a
  captured_width :: 'a
  captured_height :: 'a

definition Rectangle :: "'a \<Rightarrow> 'a \<Rightarrow> 'a rectangle" where
  "Rectangle w h = \<lparr>width = w, height = h, captured_width = w, captured_height = h\<rparr>"

definition getArea :: "'a::times rectangle \<Rightarrow> 'a" where
  "getArea r = captured_width r * captured_height r"


section \<open>The JSON bridge\<close>

text \<open>
  \<^verbatim>\<open>getJSON(obj)\<close> is \<^verbatim>\<open>JSON.stringify(obj)\<close>, and \<^verbatim>\<open>fromJSON(proto, json)\<close> is
  \<^verbatim>\<open>Object.assign(Object.create(proto), JSON.parse(json))\<close>: neither function has a
  branch, a loop or a state of its own. What they return is decided by these four
  operations of the language, over floating-point numbers, strings of 16-bit code units
  and prototype chains that can carry \<^verbatim>\<open>toJSON\<close> methods and setters. None of this is
  code of the repository, and nothing of it is embedded here.
\<close>


section \<open>The selector builder\<close>

subsection \<open>Objects, arrays and the store\<close>

text \<open>
  A builder object has the seven data fields of \<^verbatim>\<open>cssSelectorBuilder\<close>. The three
  fields \<^verbatim>\<open>nameCl\<close>, \<^verbatim>\<open>nameAt\<close> and \<^verbatim>\<open>namePC\<close> hold references to arrays, which
  \<^verbatim>\<open>push\<close> mutates in place, so arrays live in a store of their own and the fields
  hold addresses. Objects live in a second store; a method receives the address of
  \<^verbatim>\<open>this\<close>. Both stores only grow: allocation appends, and the new address is the old
  length. Names are strings; the empty string is what the code uses for an absent
  element, id or pseudo-element.
\<close>

record builder =
  isBasic :: bool
  nameEl :: string
  nameID :: string
  nameCl :: nat
  nameAt :: nat
  namePC :: nat
  namePE :: string

record heap =
  objs :: "builder list"
  arrs :: "string list list"

definition obj :: "heap \<Rightarrow> nat \<Rightarrow> builder" where
  "obj h a = objs h ! a"

definition arr :: "heap \<Rightarrow> nat \<Rightarrow> string list" where
  "arr h r = arrs h ! r"

definition new_arr :: "heap \<Rightarrow> nat \<times> heap" where
  "new_arr h = (length (arrs h), h\<lparr>arrs := arrs h @ [[]]\<rparr>)"

definition new_obj :: "heap \<Rightarrow> builder \<Rightarrow> nat \<times> heap" where
  "new_obj h b = (length (objs h), h\<lparr>objs := objs h @ [b]\<rparr>)"

definition set_obj :: "heap \<Rightarrow> nat \<Rightarrow> builder \<Rightarrow> heap" where
  "set_obj h a b = h\<lparr>objs := (objs h)[a := b]\<rparr>"

definition push :: "heap \<Rightarrow> nat \<Rightarrow> string \<Rightarrow> heap" where
  "push h r v = h\<lparr>arrs := (arrs h)[r := arr h r @ [v]]\<rparr>"

text \<open>
  The module creates the template \<^verbatim>\<open>cssSelectorBuilder\<close> once, with three empty array
  literals; it is the object at address 0.
\<close>

definition template :: nat where
  "template = 0"

definition init_heap :: heap where
  "init_heap = \<lparr>objs = [\<lparr>isBasic = True, nameEl = [], nameID = [], nameCl = 0, nameAt = 1,
                           namePC = 2, namePE = []\<rparr>],
                 arrs = [[], [], []]\<rparr>"

subsection \<open>Errors\<close>

text \<open>
  The code throws \<^verbatim>\<open>Error\<close> with one of two messages. The message that element, id and
  pseudo-element should not occur more than once is \<open>DuplicateFragmentError\<close>; the
  message about the order of the selector parts is \<open>OutOfOrderError\<close>. A method that
  throws may have changed the store before, so a result carries the store in both cases.
\<close>

datatype error = DuplicateFragmentError | OutOfOrderError

fun message :: "error \<Rightarrow> string" where
  "message DuplicateFragmentError =
     ''Element, id and pseudo-element should not occur more then one time inside the selector''"
| "message OutOfOrderError =
     ''Selector parts should be arranged in the following order: element, id, class, attribute, pseudo-class, pseudo-element''"

type_synonym result = "(error + nat) \<times> heap"

subsection \<open>The methods\<close>

text \<open>
  \<^verbatim>\<open>clear\<close>: a new object receives every field of \<^verbatim>\<open>this\<close> (\<^verbatim>\<open>Object.assign\<close>, array
  references included), then each fragment field is overwritten, the array fields with
  fresh empty arrays, and \<^verbatim>\<open>isBasic\<close> becomes false.
\<close>

definition clear :: "heap \<Rightarrow> nat \<Rightarrow> nat \<times> heap" where
  "clear h this =
     (let (b, h1) = new_obj h (obj h this);
          h2 = set_obj h1 b ((obj h1 b)\<lparr>nameEl := []\<rparr>);
          h3 = set_obj h2 b ((obj h2 b)\<lparr>nameID := []\<rparr>);
          (cl, h4) = new_arr h3;
          h5 = set_obj h4 b ((obj h4 b)\<lparr>nameCl := cl\<rparr>);
          (at, h6) = new_arr h5;
          h7 = set_obj h6 b ((obj h6 b)\<lparr>nameAt := at\<rparr>);
          (pc, h8) = new_arr h7;
          h9 = set_obj h8 b ((obj h8 b)\<lparr>namePC := pc\<rparr>);
          h10 = set_obj h9 b ((obj h9 b)\<lparr>namePE := []\<rparr>);
          h11 = set_obj h10 b ((obj h10 b)\<lparr>isBasic := False\<rparr>)
      in (b, h11))"

text \<open>
  Every fragment method starts with
  \<^verbatim>\<open>let a = this; if (a.isBasic === true) { a = this.clear(); }\<close>.
\<close>

definition receiver :: "heap \<Rightarrow> nat \<Rightarrow> nat \<times> heap" where
  "receiver h this = (if isBasic (obj h this) = True then clear h this else (this, h))"

definition element :: "heap \<Rightarrow> nat \<Rightarrow> string \<Rightarrow> result" where
  "element h this v =
     (let (a, h1) = receiver h this in
      if nameEl (obj h1 a) \<noteq> [] then (Inl DuplicateFragmentError, h1)
      else if namePE (obj h1 a) \<noteq> [] \<or> length (arr h1 (namePC (obj h1 a))) \<noteq> 0
              \<or> length (arr h1 (nameAt (obj h1 a))) \<noteq> 0
              \<or> length (arr h1 (nameCl (obj h1 a))) \<noteq> 0 \<or> nameID (obj h1 a) \<noteq> []
      then (Inl OutOfOrderError, h1)
      else (Inr a, set_obj h1 a ((obj h1 a)\<lparr>nameEl := v\<rparr>)))"

definition id_sel :: "heap \<Rightarrow> nat \<Rightarrow> string \<Rightarrow> result" where
  "id_sel h this v =
     (let (a, h1) = receiver h this in
      if nameID (obj h1 a) \<noteq> [] then (Inl DuplicateFragmentError, h1)
      else if namePE (obj h1 a) \<noteq> [] \<or> length (arr h1 (namePC (obj h1 a))) \<noteq> 0
              \<or> length (arr h1 (nameAt (obj h1 a))) \<noteq> 0
              \<or> length (arr h1 (nameCl (obj h1 a))) \<noteq> 0
      then (Inl OutOfOrderError, h1)
      else (Inr a, set_obj h1 a ((obj h1 a)\<lparr>nameID := v\<rparr>)))"

definition class_sel :: "heap \<Rightarrow> nat \<Rightarrow> string \<Rightarrow> result" where
  "class_sel h this v =
     (let (a, h1) = receiver h this in
      if namePE (obj h1 a) \<noteq> [] \<or> length (arr h1 (namePC (obj h1 a))) \<noteq> 0
         \<or> length (arr h1 (nameAt (obj h1 a))) \<noteq> 0
      then (Inl OutOfOrderError, h1)
      else (Inr a, push h1 (nameCl (obj h1 a)) v))"

text \<open>\<^verbatim>\<open>attr\<close> pushes the value before it checks the order.\<close>

definition attr :: "heap \<Rightarrow> nat \<Rightarrow> string \<Rightarrow> result" where
  "attr h this v =
     (let (a, h1) = receiver h this;
          h2 = push h1 (nameAt (obj h1 a)) v in
      if namePE (obj h2 a) \<noteq> [] \<or> length (arr h2 (namePC (obj h2 a))) \<noteq> 0
      then (Inl OutOfOrderError, h2)
      else (Inr a, h2))"

definition pseudoClass :: "heap \<Rightarrow> nat \<Rightarrow> string \<Rightarrow> result" where
  "pseudoClass h this v =
     (let (a, h1) = receiver h this in
      if namePE (obj h1 a) \<noteq> [] then (Inl OutOfOrderError, h1)
      else (Inr a, push h1 (namePC (obj h1 a)) v))"

definition pseudoElement :: "heap \<Rightarrow> nat \<Rightarrow> string \<Rightarrow> result" where
  "pseudoElement h this v =
     (let (a, h1) = receiver h this in
      if namePE (obj h1 a) \<noteq> [] then (Inl DuplicateFragmentError, h1)
      else (Inr a, set_obj h1 a ((obj h1 a)\<lparr>namePE := v\<rparr>)))"

text \<open>The three \<^verbatim>\<open>for\<close> statements of \<^verbatim>\<open>stringify\<close>, each over one array, left to right.\<close>

fun add_classes :: "string \<Rightarrow> string list \<Rightarrow> string" where
  "add_classes str [] = str"
| "add_classes str (c # cs) = add_classes (str @ ''.'' @ c) cs"

fun add_attributes :: "string \<Rightarrow> string list \<Rightarrow> string" where
  "add_attributes str [] = str"
| "add_attributes str (a # as) = add_attributes (str @ ''['' @ a @ '']'') as"

fun add_pseudo_classes :: "string \<Rightarrow> string list \<Rightarrow> string" where
  "add_pseudo_classes str [] = str"
| "add_pseudo_classes str (p # ps) = add_pseudo_classes (str @ '':'' @ p) ps"

text \<open>
  \<^verbatim>\<open>stringify\<close> of a builder object: the string is assembled from the fields of
  \<^verbatim>\<open>this\<close>, then every fragment field of \<^verbatim>\<open>this\<close> is reset, the array fields to fresh
  empty arrays.
\<close>

definition builder_string :: "heap \<Rightarrow> nat \<Rightarrow> string" where
  "builder_string h this =
     (let s0 = [];
          s1 = (if nameEl (obj h this) \<noteq> [] then s0 @ nameEl (obj h this) else s0);
          s2 = (if nameID (obj h this) \<noteq> [] then s1 @ ''#'' @ nameID (obj h this) else s1);
          s3 = add_classes s2 (arr h (nameCl (obj h this)));
          s4 = add_attributes s3 (arr h (nameAt (obj h this)));
          s5 = add_pseudo_classes s4 (arr h (namePC (obj h this)))
      in if namePE (obj h this) \<noteq> [] then s5 @ ''::'' @ namePE (obj h this) else s5)"

definition reset :: "heap \<Rightarrow> nat \<Rightarrow> heap" where
  "reset h this =
     (let h1 = set_obj h this ((obj h this)\<lparr>nameEl := []\<rparr>);
          h2 = set_obj h1 this ((obj h1 this)\<lparr>nameID := []\<rparr>);
          (cl, h3) = new_arr h2;
          h4 = set_obj h3 this ((obj h3 this)\<lparr>nameCl := cl\<rparr>);
          (at, h5) = new_arr h4;
          h6 = set_obj h5 this ((obj h5 this)\<lparr>nameAt := at\<rparr>);
          (pc, h7) = new_arr h6;
          h8 = set_obj h7 this ((obj h7 this)\<lparr>namePC := pc\<rparr>)
      in set_obj h8 this ((obj h8 this)\<lparr>namePE := []\<rparr>))"

definition stringify_builder :: "heap \<Rightarrow> nat \<Rightarrow> string \<times> heap" where
  "stringify_builder h this = (builder_string h this, reset h this)"

subsection \<open>Combined selectors\<close>

text \<open>
  \<^verbatim>\<open>combine\<close> returns an object whose \<^verbatim>\<open>stringify\<close> closes over the three arguments;
  nothing in the code assigns to such an object, so it is a value: a tree whose leaves
  are references to builder objects. Its \<^verbatim>\<open>stringify\<close> evaluates the template literal
  from left to right: the first selector is rendered, then the second, in the store
  that the first rendering left.
\<close>

datatype selector = Simple nat | Combined selector string selector

definition combine :: "selector \<Rightarrow> string \<Rightarrow> selector \<Rightarrow> selector" where
  "combine selector1 combinator selector2 = Combined selector1 combinator selector2"

fun stringify :: "heap \<Rightarrow> selector \<Rightarrow> string \<times> heap" where
  "stringify h (Simple a) = stringify_builder h a"
| "stringify h (Combined selector1 combinator selector2) =
     (let (s1, h1) = stringify h selector1;
          (s2, h2) = stringify h1 selector2
      in (s1 @ '' '' @ combinator @ '' '' @ s2, h2))"


subsection \<open>Chains of calls\<close>

text \<open>
  One call of a fragment method, and a chain \<^verbatim>\<open>this.m1(v1).m2(v2)...\<close>: each method
  is called on the object that the previous one returned, and the first exception ends
  the chain. \<open>render_chain\<close> is the chain followed by \<^verbatim>\<open>.stringify()\<close>.
\<close>

datatype fragment =
  Element string | Id string | Class string | Attr string | PseudoClass string
  | PseudoElement string

fun add :: "heap \<Rightarrow> nat \<Rightarrow> fragment \<Rightarrow> result" where
  "add h this (Element v) = element h this v"
| "add h this (Id v) = id_sel h this v"
| "add h this (Class v) = class_sel h this v"
| "add h this (Attr v) = attr h this v"
| "add h this (PseudoClass v) = pseudoClass h this v"
| "add h this (PseudoElement v) = pseudoElement h this v"

fun chain :: "heap \<Rightarrow> nat \<Rightarrow> fragment list \<Rightarrow> result" where
  "chain h this [] = (Inr this, h)"
| "chain h this (f # fs) =
     (case add h this f of
        (Inl e, h1) \<Rightarrow> (Inl e, h1)
      | (Inr a, h1) \<Rightarrow> chain h1 a fs)"

definition render_chain :: "heap \<Rightarrow> nat \<Rightarrow> fragment list \<Rightarrow> error + string" where
  "render_chain h this fs =
     (case chain h this fs of
        (Inl e, h1) \<Rightarrow> Inl e
      | (Inr a, h1) \<Rightarrow> Inr (fst (stringify h1 (Simple a))))"

text \<open>The store after a chain on \<^verbatim>\<open>cssSelectorBuilder\<close>, evaluated in the initial store.\<close>

definition heap_after :: "fragment list \<Rightarrow> heap" where
  "heap_after fs = snd (chain init_heap template fs)"

text \<open>
  Expressions as the examples and tests write them: a chain on \<^verbatim>\<open>cssSelectorBuilder\<close>,
  or \<^verbatim>\<open>builder.combine(e1, c, e2)\<close>, whose arguments are evaluated from left to right.
  \<open>run\<close> evaluates an expression in the initial store and calls \<^verbatim>\<open>stringify\<close> on
  its value.
\<close>

datatype expr = Chain "fragment list" | Combine expr string expr

fun build :: "heap \<Rightarrow> expr \<Rightarrow> (error + selector) \<times> heap" where
  "build h (Chain fs) =
     (case chain h template fs of
        (Inl e, h1) \<Rightarrow> (Inl e, h1)
      | (Inr a, h1) \<Rightarrow> (Inr (Simple a), h1))"
| "build h (Combine e1 c e2) =
     (case build h e1 of
        (Inl e, h1) \<Rightarrow> (Inl e, h1)
      | (Inr s1, h1) \<Rightarrow>
          (case build h1 e2 of
             (Inl e, h2) \<Rightarrow> (Inl e, h2)
           | (Inr s2, h2) \<Rightarrow> (Inr (combine s1 c s2), h2)))"

definition run :: "expr \<Rightarrow> error + string" where
  "run e =
     (case build init_heap e of
        (Inl err, h) \<Rightarrow> Inl err
      | (Inr s, h) \<Rightarrow> Inr (fst (stringify h s)))"

text \<open>
  The public operations that touch the store, for statements about all of them:
  \<^verbatim>\<open>clear\<close> and the six fragment methods on a builder object, and \<^verbatim>\<open>stringify\<close> on a
  builder object or a combined selector. \<open>exec\<close> is the store after the call, whether
  it returned or threw.
\<close>

fun leaves :: "selector \<Rightarrow> nat list" where
  "leaves (Simple a) = [a]"
| "leaves (Combined selector1 combinator selector2) = leaves selector1 @ leaves selector2"

datatype call = Call_clear nat | Call_add nat fragment | Call_stringify selector

fun exec :: "heap \<Rightarrow> call \<Rightarrow> heap" where
  "exec h (Call_clear this) = snd (clear h this)"
| "exec h (Call_add this f) = snd (add h this f)"
| "exec h (Call_stringify s) = snd (stringify h s)"

fun receivers :: "call \<Rightarrow> nat list" where
  "receivers (Call_clear this) = [this]"
| "receivers (Call_add this f) = [this]"
| "receivers (Call_stringify s) = leaves s"

fun exec_all :: "heap \<Rightarrow> call list \<Rightarrow> heap" where
  "exec_all h [] = h"
| "exec_all h (c # cs) = exec_all (exec h c) cs"

text \<open>A call is made on objects that exist when it is made.\<close>

fun calls_ok :: "heap \<Rightarrow> call list \<Rightarrow> bool" where
  "calls_ok h [] = True"
| "calls_ok h (c # cs) =
     (list_all (\<lambda>a. a < length (objs h)) (receivers c) \<and> calls_ok (exec h c) cs)"

subsection \<open>Fragment sets and the shape of the store\<close>

text \<open>
  The fragment set that a builder object stands for: its element, id, classes,
  attributes, pseudo-classes and pseudo-element, the arrays read through the references.
\<close>

definition classes :: "heap \<Rightarrow> nat \<Rightarrow> string list" where
  "classes h a = arr h (nameCl (obj h a))"

definition attributes :: "heap \<Rightarrow> nat \<Rightarrow> string list" where
  "attributes h a = arr h (nameAt (obj h a))"

definition pseudoClasses :: "heap \<Rightarrow> nat \<Rightarrow> string list" where
  "pseudoClasses h a = arr h (namePC (obj h a))"

type_synonym fragment_set =
  "string \<times> string \<times> string list \<times> string list \<times> string list \<times> string"

definition fragments :: "heap \<Rightarrow> nat \<Rightarrow> fragment_set" where
  "fragments h a =
     (nameEl (obj h a), nameID (obj h a), classes h a, attributes h a, pseudoClasses h a,
      namePE (obj h a))"

definition no_fragments :: fragment_set where
  "no_fragments = ([], [], [], [], [], [])"

text \<open>
  The stores that the program can be in: every array reference points into the array
  store, no array is referenced twice (neither by two objects nor by two fields of one
  object), the template is the only object with \<^verbatim>\<open>isBasic\<close> set, and the template has no
  fragments.
\<close>

definition refs :: "builder \<Rightarrow> nat list" where
  "refs b = [nameCl b, nameAt b, namePC b]"

definition all_refs :: "heap \<Rightarrow> nat list" where
  "all_refs h = concat (map refs (objs h))"

definition heap_ok :: "heap \<Rightarrow> bool" where
  "heap_ok h \<longleftrightarrow>
     template < length (objs h) \<and>
     distinct (all_refs h) \<and>
     list_all (\<lambda>r. r < length (arrs h)) (all_refs h) \<and>
     list_all (\<lambda>a. isBasic (obj h a) = (a = template)) [0..<length (objs h)] \<and>
     fragments h template = no_fragments"

subsection \<open>The rendering that the specification describes\<close>

text \<open>
  A sequence of fragment-adding operations in grammar order: at most one element, at
  most one id, classes, attributes, pseudo-classes, at most one pseudo-element. The
  rendering that the specification gives for it is the concatenation of the element,
  \<open>#\<close> and the id, \<open>.\<close> and each class, each attribute in brackets, \<open>:\<close> and each
  pseudo-class, \<open>::\<close> and the pseudo-element.
\<close>

definition grammar_order ::
  "string option \<Rightarrow> string option \<Rightarrow> string list \<Rightarrow> string list \<Rightarrow> string list \<Rightarrow>
   string option \<Rightarrow> fragment list" where
  "grammar_order e i cs as ps pe =
     (case e of None \<Rightarrow> [] | Some v \<Rightarrow> [Element v]) @
     (case i of None \<Rightarrow> [] | Some v \<Rightarrow> [Id v]) @
     map Class cs @ map Attr as @ map PseudoClass ps @
     (case pe of None \<Rightarrow> [] | Some v \<Rightarrow> [PseudoElement v])"

text \<open>
  The code keeps the empty string for an absent element, id or pseudo-element, so one
  that is set to the empty string is kept as absent.
\<close>

definition stored :: "string option \<Rightarrow> string option" where
  "stored x = (if x = Some [] then None else x)"

definition expected_rendering ::
  "string option \<Rightarrow> string option \<Rightarrow> string list \<Rightarrow> string list \<Rightarrow> string list \<Rightarrow>
   string option \<Rightarrow> string" where
  "expected_rendering e i cs as ps pe =
     (case e of None \<Rightarrow> [] | Some v \<Rightarrow> v) @
     (case i of None \<Rightarrow> [] | Some v \<Rightarrow> ''#'' @ v) @
     concat (map (\<lambda>c. ''.'' @ c) cs) @
     concat (map (\<lambda>a. ''['' @ a @ '']'') as) @
     concat (map (\<lambda>p. '':'' @ p) ps) @
     (case pe of None \<Rightarrow> [] | Some v \<Rightarrow> ''::'' @ v)"


subsection \<open>The methods on fragment sets\<close>

text \<open>
  What a fragment method does to the fragment set of the object it works on, read off
  the method bodies: the checks in the order of the code, the error that is thrown if
  any, and the fragment set afterwards (which \<^verbatim>\<open>attr\<close> changes even when it throws).
  \<open>frag_string\<close> is the string that \<^verbatim>\<open>stringify\<close> assembles. These functions are
  related to the methods on the store by the lemmas \<open>add_props\<close>, \<open>chain_props\<close> and
  \<open>builder_string_frag\<close> below.
\<close>

fun frag_step :: "fragment_set \<Rightarrow> fragment \<Rightarrow> error option \<times> fragment_set" where
  "frag_step (e, i, cs, as, ps, pe) (Element v) =
     (if e \<noteq> [] then (Some DuplicateFragmentError, (e, i, cs, as, ps, pe))
      else if pe \<noteq> [] \<or> ps \<noteq> [] \<or> as \<noteq> [] \<or> cs \<noteq> [] \<or> i \<noteq> []
      then (Some OutOfOrderError, (e, i, cs, as, ps, pe))
      else (None, (v, i, cs, as, ps, pe)))"
| "frag_step (e, i, cs, as, ps, pe) (Id v) =
     (if i \<noteq> [] then (Some DuplicateFragmentError, (e, i, cs, as, ps, pe))
      else if pe \<noteq> [] \<or> ps \<noteq> [] \<or> as \<noteq> [] \<or> cs \<noteq> []
      then (Some OutOfOrderError, (e, i, cs, as, ps, pe))
      else (None, (e, v, cs, as, ps, pe)))"
| "frag_step (e, i, cs, as, ps, pe) (Class v) =
     (if pe \<noteq> [] \<or> ps \<noteq> [] \<or> as \<noteq> []
      then (Some OutOfOrderError, (e, i, cs, as, ps, pe))
      else (None, (e, i, cs @ [v], as, ps, pe)))"
| "frag_step (e, i, cs, as, ps, pe) (Attr v) =
     (if pe \<noteq> [] \<or> ps \<noteq> []
      then (Some OutOfOrderError, (e, i, cs, as @ [v], ps, pe))
      else (None, (e, i, cs, as @ [v], ps, pe)))"
| "frag_step (e, i, cs, as, ps, pe) (PseudoClass v) =
     (if pe \<noteq> []
      then (Some OutOfOrderError, (e, i, cs, as, ps, pe))
      else (None, (e, i, cs, as, ps @ [v], pe)))"
| "frag_step (e, i, cs, as, ps, pe) (PseudoElement v) =
     (if pe \<noteq> []
      then (Some DuplicateFragmentError, (e, i, cs, as, ps, pe))
      else (None, (e, i, cs, as, ps, v)))"

fun frag_string :: "fragment_set \<Rightarrow> string" where
  "frag_string (e, i, cs, as, ps, pe) =
     e @ (if i \<noteq> [] then ''#'' @ i else []) @ concat (map (\<lambda>c. ''.'' @ c) cs) @
     concat (map (\<lambda>a. ''['' @ a @ '']'') as) @ concat (map (\<lambda>p. '':'' @ p) ps) @
     (if pe \<noteq> [] then ''::'' @ pe else [])"


fun frag_chain :: "fragment_set \<Rightarrow> fragment list \<Rightarrow> error option \<times> fragment_set" where
  "frag_chain s [] = (None, s)"
| "frag_chain s (f # fs) =
     (case frag_step s f of
        (Some e, s1) \<Rightarrow> (Some e, s1)
      | (None, s1) \<Rightarrow> frag_chain s1 fs)"



section \<open>Properties of the rectangle\<close>

text \<open>
  C9. For every width \<open>w\<close> and height \<open>h\<close>, the object that \<open>Rectangle w h\<close> returns has
  \<open>w\<close> in its width field and \<open>h\<close> in its height field, and its area method returns
  \<open>w * h\<close>.
\<close>

theorem Rectangle_fields_and_area:
  "width (Rectangle w h) = w \<and> height (Rectangle w h) = h \<and> getArea (Rectangle w h) = w * h"
  by (simp add: Rectangle_def getArea_def)

text \<open>
  C10. The area is fixed when the rectangle is constructed: after any assignment to the
  width field, to the height field, or to both, \<open>getArea\<close> still returns the product of
  the two constructor arguments.
\<close>

theorem getArea_fixed_at_construction:
  "getArea ((Rectangle w h)\<lparr>width := w'\<rparr>) = w * h \<and>
   getArea ((Rectangle w h)\<lparr>height := h'\<rparr>) = w * h \<and>
   getArea ((Rectangle w h)\<lparr>width := w', height := h'\<rparr>) = w * h"
  by (simp add: Rectangle_def getArea_def)


section \<open>The store\<close>

subsection \<open>Store primitives\<close>

lemma obj_simps [simp]:
  "obj (h\<lparr>arrs := xs\<rparr>) a = obj h a"
  "a < length (objs h) \<Longrightarrow> obj (set_obj h a b) a = b"
  "a \<noteq> c \<Longrightarrow> obj (set_obj h a b) c = obj h c"
  "obj (push h r v) a = obj h a"
  by (simp_all add: obj_def set_obj_def push_def)

lemma arr_simps [simp]:
  "arr (set_obj h a b) r = arr h r"
  "r < length (arrs h) \<Longrightarrow> arr (push h r v) r = arr h r @ [v]"
  "r \<noteq> r' \<Longrightarrow> arr (push h r v) r' = arr h r'"
  by (simp_all add: arr_def set_obj_def push_def)

lemma length_simps [simp]:
  "length (objs (set_obj h a b)) = length (objs h)"
  "length (arrs (set_obj h a b)) = length (arrs h)"
  "length (objs (push h r v)) = length (objs h)"
  "length (arrs (push h r v)) = length (arrs h)"
  by (simp_all add: set_obj_def push_def)

lemma clear_eq:
  "clear h this = (length (objs h),
     \<lparr>objs = objs h @ [\<lparr>isBasic = False, nameEl = [], nameID = [], nameCl = length (arrs h),
                        nameAt = Suc (length (arrs h)), namePC = Suc (Suc (length (arrs h))), namePE = []\<rparr>],
      arrs = arrs h @ [[], [], []]\<rparr>)"
  by (simp add: clear_def new_obj_def new_arr_def set_obj_def obj_def Let_def)

lemma reset_eq:
  "this < length (objs h) \<Longrightarrow> reset h this =
     \<lparr>objs = (objs h)[this := (obj h this)\<lparr>nameEl := [], nameID := [], nameCl := length (arrs h),
                        nameAt := Suc (length (arrs h)), namePC := Suc (Suc (length (arrs h))), namePE := []\<rparr>],
      arrs = arrs h @ [[], [], []]\<rparr>"
  by (simp add: reset_def new_obj_def new_arr_def set_obj_def obj_def Let_def)

lemma add_classes_eq: "add_classes str cs = str @ concat (map (\<lambda>c. ''.'' @ c) cs)"
  by (induction cs arbitrary: str) simp_all

lemma add_attributes_eq: "add_attributes str as = str @ concat (map (\<lambda>a. ''['' @ a @ '']'') as)"
  by (induction as arbitrary: str) simp_all

lemma add_pseudo_classes_eq: "add_pseudo_classes str ps = str @ concat (map (\<lambda>p. '':'' @ p) ps)"
  by (induction ps arbitrary: str) simp_all

lemma append_single: "(@) [x] = (#) x"
  by (rule ext) simp

lemma builder_string_frag: "builder_string h a = frag_string (fragments h a)"
  by (simp add: append_single builder_string_def fragments_def classes_def attributes_def pseudoClasses_def
      add_classes_eq add_attributes_eq add_pseudo_classes_eq Let_def)

subsection \<open>The shape of the store, object by object\<close>

lemma distinct_concat_nth:
  "distinct (concat xss) \<Longrightarrow> i < length xss \<Longrightarrow> j < length xss \<Longrightarrow> i \<noteq> j \<Longrightarrow>
   set (xss ! i) \<inter> set (xss ! j) = {}"
proof (induction xss arbitrary: i j)
  case Nil
  then show ?case by simp
next
  case (Cons xs xss)
  show ?case
  proof (cases i)
    case 0
    then obtain j' where j: "j = Suc j'" using Cons.prems by (cases j) auto
    then have "set (xss ! j') \<subseteq> set (concat xss)" using Cons.prems by auto
    then show ?thesis using Cons.prems 0 j by auto
  next
    case (Suc i')
    show ?thesis
    proof (cases j)
      case 0
      have "set (xss ! i') \<subseteq> set (concat xss)" using Cons.prems Suc by auto
      then show ?thesis using Cons.prems 0 Suc by auto
    next
      case (Suc j')
      then show ?thesis using Cons.prems \<open>i = Suc i'\<close> Cons.IH[of i' j'] by simp
    qed
  qed
qed

lemma distinct_concat_nth_self:
  "distinct (concat xss) \<Longrightarrow> i < length xss \<Longrightarrow> distinct (xss ! i)"
  by (induction xss arbitrary: i) (auto simp: nth_Cons split: nat.splits)

lemma distinct_concat_update:
  "distinct (concat xss) \<Longrightarrow> distinct ys \<Longrightarrow> set ys \<inter> set (concat xss) = {} \<Longrightarrow>
   distinct (concat (xss[i := ys]))"
proof (induction xss arbitrary: i)
  case Nil
  then show ?case by simp
next
  case (Cons xs xss)
  show ?case
  proof (cases i)
    case 0
    then show ?thesis using Cons.prems by auto
  next
    case (Suc i')
    have "set (concat (xss[i' := ys])) \<subseteq> set ys \<union> set (concat xss)"
      using set_update_subset_insert[of xss i' ys] by auto
    then show ?thesis using Cons.prems Cons.IH[of i'] Suc by auto
  qed
qed

lemma heap_ok_refs:
  assumes "heap_ok h" "a < length (objs h)"
  shows "nameCl (obj h a) < length (arrs h)" "nameAt (obj h a) < length (arrs h)"
    "namePC (obj h a) < length (arrs h)"
    "nameCl (obj h a) \<noteq> nameAt (obj h a)" "nameCl (obj h a) \<noteq> namePC (obj h a)"
    "nameAt (obj h a) \<noteq> namePC (obj h a)"
proof -
  have "refs (obj h a) \<in> set (map refs (objs h))"
    using assms(2) by (simp add: obj_def)
  then have "set (refs (obj h a)) \<subseteq> set (all_refs h)"
    by (auto simp: all_refs_def)
  moreover have "\<forall>r \<in> set (all_refs h). r < length (arrs h)"
    using assms(1) by (simp add: heap_ok_def list_all_iff)
  ultimately show "nameCl (obj h a) < length (arrs h)" "nameAt (obj h a) < length (arrs h)"
    "namePC (obj h a) < length (arrs h)"
    by (auto simp: refs_def)
  have "distinct (map refs (objs h) ! a)"
    using assms by (intro distinct_concat_nth_self) (simp_all add: heap_ok_def all_refs_def)
  then show "nameCl (obj h a) \<noteq> nameAt (obj h a)" "nameCl (obj h a) \<noteq> namePC (obj h a)"
    "nameAt (obj h a) \<noteq> namePC (obj h a)"
    using assms(2) by (simp_all add: refs_def obj_def)
qed

lemma heap_ok_disjoint:
  assumes "heap_ok h" "a < length (objs h)" "b < length (objs h)" "a \<noteq> b"
  shows "set (refs (obj h a)) \<inter> set (refs (obj h b)) = {}"
  using distinct_concat_nth[of "map refs (objs h)" a b] assms
  by (simp add: heap_ok_def all_refs_def obj_def)

lemma heap_ok_basic:
  "heap_ok h \<Longrightarrow> a < length (objs h) \<Longrightarrow> isBasic (obj h a) = (a = template)"
  by (simp add: heap_ok_def list_all_iff)

lemma heap_ok_template:
  "heap_ok h \<Longrightarrow> template < length (objs h)" "heap_ok h \<Longrightarrow> fragments h template = no_fragments"
  by (simp_all add: heap_ok_def)

lemma heap_ok_init: "heap_ok init_heap"
  by (simp add: heap_ok_def init_heap_def template_def all_refs_def refs_def obj_def arr_def
      fragments_def no_fragments_def classes_def attributes_def pseudoClasses_def)

lemma fragments_cong:
  "obj h' b = obj h b \<Longrightarrow> arr h' (nameCl (obj h b)) = arr h (nameCl (obj h b)) \<Longrightarrow>
   arr h' (nameAt (obj h b)) = arr h (nameAt (obj h b)) \<Longrightarrow>
   arr h' (namePC (obj h b)) = arr h (namePC (obj h b)) \<Longrightarrow>
   fragments h' b = fragments h b"
  by (simp add: fragments_def classes_def attributes_def pseudoClasses_def)

lemma all_refs_set_obj:
  "a < length (objs h) \<Longrightarrow> refs b = refs (obj h a) \<Longrightarrow> all_refs (set_obj h a b) = all_refs h"
  using list_update_id[of "map refs (objs h)" a]
  by (simp add: all_refs_def set_obj_def obj_def map_update)

lemma heap_ok_set_obj:
  assumes "heap_ok h" "a < length (objs h)" "a \<noteq> template" "refs b = refs (obj h a)"
    "isBasic b = isBasic (obj h a)"
  shows "heap_ok (set_obj h a b)"
proof -
  have "isBasic (obj (set_obj h a b) c) = (c = template)" if "c < length (objs h)" for c
    using that assms heap_ok_basic[of h c] by (cases "c = a") simp_all
  moreover have "fragments (set_obj h a b) template = fragments h template"
    using assms(3) by (intro fragments_cong) simp_all
  ultimately show ?thesis 
    using assms by (simp add: heap_ok_def all_refs_set_obj list_all_iff)
qed

lemma fragments_set_obj_other:
  "b \<noteq> a \<Longrightarrow> fragments (set_obj h a x) b = fragments h b"
  by (intro fragments_cong) simp_all

lemma heap_ok_push:
  assumes "heap_ok h" "a < length (objs h)" "a \<noteq> template" "r \<in> set (refs (obj h a))"
  shows "heap_ok (push h r v)"
proof -
  have t: "template < length (objs h)" using assms(1) by (rule heap_ok_template)
  have "set (refs (obj h a)) \<inter> set (refs (obj h template)) = {}"
    using heap_ok_disjoint[OF assms(1,2) t assms(3)] .
  then have "r \<notin> set (refs (obj h template))" using assms(4) by auto
  then have "fragments (push h r v) template = fragments h template"
    by (intro fragments_cong) (simp_all add: refs_def)
  moreover have "all_refs (push h r v) = all_refs h"
    by (simp add: all_refs_def push_def)
  ultimately show ?thesis
    using assms(1) by (simp add: heap_ok_def)
qed

lemma fragments_push_other:
  assumes "heap_ok h" "a < length (objs h)" "b < length (objs h)" "b \<noteq> a"
    "r \<in> set (refs (obj h a))"
  shows "fragments (push h r v) b = fragments h b"
proof -
  have "set (refs (obj h a)) \<inter> set (refs (obj h b)) = {}"
    using heap_ok_disjoint assms by simp
  then have "r \<notin> set (refs (obj h b))" using assms(5) by auto
  then show ?thesis
    by (intro fragments_cong) (simp_all add: refs_def)
qed

lemma clear_fst: "fst (clear h this) = length (objs h)"
  by (simp add: clear_eq)

lemma clear_length: "length (objs (snd (clear h this))) = Suc (length (objs h))"
  by (simp add: clear_eq)

lemma clear_obj_old: "b < length (objs h) \<Longrightarrow> obj (snd (clear h this)) b = obj h b"
  by (simp add: clear_eq obj_def nth_append)

lemma clear_arr_old: "r < length (arrs h) \<Longrightarrow> arr (snd (clear h this)) r = arr h r"
  by (simp add: clear_eq arr_def nth_append)

lemma clear_fragments_new: "fragments (snd (clear h this)) (length (objs h)) = no_fragments"
  by (simp add: clear_eq fragments_def no_fragments_def classes_def attributes_def
      pseudoClasses_def obj_def arr_def nth_append)

lemma clear_fragments_old:
  assumes "heap_ok h" "b < length (objs h)"
  shows "fragments (snd (clear h this)) b = fragments h b"
  using assms heap_ok_refs[OF assms]
  by (intro fragments_cong) (simp_all add: clear_obj_old clear_arr_old)

lemma heap_ok_clear:
  assumes "heap_ok h"
  shows "heap_ok (snd (clear h this))"
proof -
  let ?h = "snd (clear h this)"
  have t: "template < length (objs h)" using assms by (rule heap_ok_template)
  have bound: "\<forall>r \<in> set (all_refs h). r < length (arrs h)"
    using assms by (simp add: heap_ok_def list_all_iff)
  have refs: "all_refs ?h = all_refs h @ [length (arrs h), Suc (length (arrs h)), Suc (Suc (length (arrs h)))]"
    by (simp add: clear_eq all_refs_def refs_def)
  have "distinct (all_refs ?h)"
    using assms bound unfolding refs by (auto simp: heap_ok_def)
  moreover have "list_all (\<lambda>r. r < length (arrs ?h)) (all_refs ?h)"
    using bound unfolding refs by (auto simp: clear_eq list_all_iff)
  moreover have "isBasic (obj ?h a) = (a = template)" if "a < Suc (length (objs h))" for a
  proof (cases "a < length (objs h)")
    case True
    then show ?thesis using heap_ok_basic[OF assms True] by (simp add: clear_obj_old)
  next
    case False
    then have "a = length (objs h)" using that by simp
    then show ?thesis using t by (simp add: clear_eq obj_def)
  qed
  moreover have "fragments ?h template = no_fragments"
    using clear_fragments_old[OF assms t] heap_ok_template(2)[OF assms] by simp
  ultimately show ?thesis
    using t by (simp add: heap_ok_def clear_length list_all_iff)
qed

lemma reset_length: "length (objs (reset h this)) = length (objs h)"
  by (simp add: reset_def new_arr_def set_obj_def Let_def)

lemma reset_fragments_self:
  "this < length (objs h) \<Longrightarrow> fragments (reset h this) this = no_fragments"
  by (simp add: reset_eq fragments_def no_fragments_def classes_def attributes_def
      pseudoClasses_def obj_def arr_def nth_append)

lemma reset_obj_other:
  "this < length (objs h) \<Longrightarrow> b \<noteq> this \<Longrightarrow> obj (reset h this) b = obj h b"
  by (simp add: reset_eq obj_def)

lemma reset_arr_old:
  "this < length (objs h) \<Longrightarrow> r < length (arrs h) \<Longrightarrow> arr (reset h this) r = arr h r"
  by (simp add: reset_eq arr_def nth_append)

lemma reset_fragments_other:
  assumes "heap_ok h" "this < length (objs h)" "b < length (objs h)" "b \<noteq> this"
  shows "fragments (reset h this) b = fragments h b"
  using assms heap_ok_refs[OF assms(1,3)]
  by (intro fragments_cong) (simp_all add: reset_obj_other reset_arr_old)

lemma heap_ok_reset:
  assumes "heap_ok h" "this < length (objs h)"
  shows "heap_ok (reset h this)"
proof -
  let ?h = "reset h this"
  let ?n = "length (arrs h)"
  let ?b = "(obj h this)\<lparr>nameEl := [], nameID := [], nameCl := ?n, nameAt := Suc ?n,
              namePC := Suc (Suc ?n), namePE := []\<rparr>"
  have t: "template < length (objs h)" using assms(1) by (rule heap_ok_template)
  have bound: "\<forall>r \<in> set (all_refs h). r < ?n"
    using assms(1) by (simp add: heap_ok_def list_all_iff)
  have refs: "all_refs ?h = concat ((map refs (objs h))[this := [?n, Suc ?n, Suc (Suc ?n)]])"
    using assms(2) by (simp add: reset_eq all_refs_def map_update refs_def)
  have fresh: "set [?n, Suc ?n, Suc (Suc ?n)] \<inter> set (all_refs h) = {}"
    using bound by fastforce
  have "distinct (concat (map refs (objs h)))"
    using assms(1) by (simp add: heap_ok_def all_refs_def)
  then have dist: "distinct (all_refs ?h)"
    unfolding refs using fresh
    by (intro distinct_concat_update) (simp_all add: all_refs_def)
  have "set (all_refs ?h) \<subseteq> set (all_refs h) \<union> {?n, Suc ?n, Suc (Suc ?n)}"
    unfolding refs using set_update_subset_insert[of "map refs (objs h)" this "[?n, Suc ?n, Suc (Suc ?n)]"]
    by (auto simp: all_refs_def)
  moreover have len: "length (arrs ?h) = Suc (Suc (Suc ?n))"
    using assms(2) by (simp add: reset_eq)
  ultimately have "list_all (\<lambda>r. r < length (arrs ?h)) (all_refs ?h)"
    using bound unfolding list_all_iff len by fastforce
  moreover have "isBasic (obj ?h a) = (a = template)" if "a < length (objs h)" for a
    using heap_ok_basic[OF assms(1) that] assms(2) that
    by (cases "a = this") (simp_all add: reset_obj_other, simp add: reset_eq obj_def)
  moreover have "fragments ?h template = no_fragments"
  proof (cases "template = this")
    case True
    then show ?thesis using reset_fragments_self[OF assms(2)] by simp
  next
    case False
    then show ?thesis
      using reset_fragments_other[OF assms t False] heap_ok_template(2)[OF assms(1)] by simp
  qed
  ultimately show ?thesis
    using t dist by (simp add: heap_ok_def reset_length list_all_iff)
qed

lemma receiver_props:
  assumes "heap_ok h" "this < length (objs h)" "receiver h this = (a, h1)"
  shows "heap_ok h1" "a < length (objs h1)" "a \<noteq> template"
    "fragments h1 a = fragments h this"
    "\<And>b. b < length (objs h) \<Longrightarrow> b \<noteq> a \<Longrightarrow> fragments h1 b = fragments h b"
    "length (objs h) \<le> length (objs h1)"
    "this = template \<Longrightarrow> a = length (objs h)" "this \<noteq> template \<Longrightarrow> a = this"
proof -
  have t: "template < length (objs h)" using assms(1) by (rule heap_ok_template)
  have basic: "isBasic (obj h this) = (this = template)"
    using assms(1,2) by (rule heap_ok_basic)
  have main: "heap_ok h1 \<and> a < length (objs h1) \<and> a \<noteq> template \<and>
    fragments h1 a = fragments h this \<and>
    (\<forall>b. b < length (objs h) \<longrightarrow> b \<noteq> a \<longrightarrow> fragments h1 b = fragments h b) \<and>
    length (objs h) \<le> length (objs h1) \<and>
    (this = template \<longrightarrow> a = length (objs h)) \<and> (this \<noteq> template \<longrightarrow> a = this)"
  proof (cases "this = template")
    case True
    then have a: "a = length (objs h)" and h1: "h1 = snd (clear h this)"
      using assms(3) basic clear_fst[of h this] by (auto simp: receiver_def)
    show ?thesis
      using a h1 True t heap_ok_clear[OF assms(1), of this] clear_fragments_new[of h this]
        heap_ok_template(2)[OF assms(1)] clear_fragments_old[OF assms(1), of _ this]
      by (simp add: clear_length)
  next
    case False
    then have a: "a = this" and h1: "h1 = h"
      using assms(3) basic by (auto simp: receiver_def)
    show ?thesis using a h1 False assms(1,2) by simp
  qed
  show "heap_ok h1" "a < length (objs h1)" "a \<noteq> template"
    "fragments h1 a = fragments h this"
    "\<And>b. b < length (objs h) \<Longrightarrow> b \<noteq> a \<Longrightarrow> fragments h1 b = fragments h b"
    "length (objs h) \<le> length (objs h1)"
    "this = template \<Longrightarrow> a = length (objs h)" "this \<noteq> template \<Longrightarrow> a = this"
    using main by blast+
qed

text \<open>What each assignment and each push does to the fragment set of the object.\<close>

lemma fragmentsD:
  assumes "fragments h a = (e, i, cs, as, ps, pe)"
  shows "nameEl (obj h a) = e" "nameID (obj h a) = i" "arr h (nameCl (obj h a)) = cs"
    "arr h (nameAt (obj h a)) = as" "arr h (namePC (obj h a)) = ps" "namePE (obj h a) = pe"
  using assms by (simp_all add: fragments_def classes_def attributes_def pseudoClasses_def)

lemma in_place_assign:
  assumes "heap_ok h" "a < length (objs h)" "a \<noteq> template"
    "fragments h a = (e, i, cs, as, ps, pe)"
  shows "heap_ok (set_obj h a ((obj h a)\<lparr>nameEl := v\<rparr>))"
    "fragments (set_obj h a ((obj h a)\<lparr>nameEl := v\<rparr>)) a = (v, i, cs, as, ps, pe)"
    "heap_ok (set_obj h a ((obj h a)\<lparr>nameID := v\<rparr>))"
    "fragments (set_obj h a ((obj h a)\<lparr>nameID := v\<rparr>)) a = (e, v, cs, as, ps, pe)"
    "heap_ok (set_obj h a ((obj h a)\<lparr>namePE := v\<rparr>))"
    "fragments (set_obj h a ((obj h a)\<lparr>namePE := v\<rparr>)) a = (e, i, cs, as, ps, v)"
  using assms(2) fragmentsD[OF assms(4)]
  by (simp_all add: heap_ok_set_obj[OF assms(1-3)] refs_def,
      simp_all add: fragments_def classes_def attributes_def pseudoClasses_def)

lemma in_place_push:
  assumes "heap_ok h" "a < length (objs h)" "a \<noteq> template"
    "fragments h a = (e, i, cs, as, ps, pe)"
  shows "heap_ok (push h (nameCl (obj h a)) v)"
    "fragments (push h (nameCl (obj h a)) v) a = (e, i, cs @ [v], as, ps, pe)"
    "heap_ok (push h (nameAt (obj h a)) v)"
    "fragments (push h (nameAt (obj h a)) v) a = (e, i, cs, as @ [v], ps, pe)"
    "heap_ok (push h (namePC (obj h a)) v)"
    "fragments (push h (namePC (obj h a)) v) a = (e, i, cs, as, ps @ [v], pe)"
  using heap_ok_refs[OF assms(1,2)] fragmentsD[OF assms(4)]
  by (simp_all add: heap_ok_push[OF assms(1-3)] refs_def,
      simp_all add: fragments_def classes_def attributes_def pseudoClasses_def)

lemma in_place_push_other:
  assumes "heap_ok h" "a < length (objs h)" "b < length (objs h)" "b \<noteq> a"
  shows "fragments (push h (nameCl (obj h a)) v) b = fragments h b"
    "fragments (push h (nameAt (obj h a)) v) b = fragments h b"
    "fragments (push h (namePC (obj h a)) v) b = fragments h b"
  by (simp_all add: fragments_push_other[OF assms] refs_def)

lemma add_props:
  assumes "heap_ok h" "this < length (objs h)" "add h this f = (r, h')"
  obtains a where "heap_ok h'" "a < length (objs h')" "a \<noteq> template"
    "this = template \<Longrightarrow> a = length (objs h)" "this \<noteq> template \<Longrightarrow> a = this"
    "fragments h' a = snd (frag_step (fragments h this) f)"
    "r = (case fst (frag_step (fragments h this) f) of None \<Rightarrow> Inr a | Some e \<Rightarrow> Inl e)"
    "\<And>b. b < length (objs h) \<Longrightarrow> b \<noteq> a \<Longrightarrow> fragments h' b = fragments h b"
    "length (objs h) \<le> length (objs h')"
proof -
  obtain a h1 where rc: "receiver h this = (a, h1)" by (cases "receiver h this")
  note R = receiver_props[OF assms(1,2) rc]
  obtain e i cs as ps pe where fr: "fragments h1 a = (e, i, cs, as, ps, pe)"
    by (cases "fragments h1 a")
  then have fr0: "fragments h this = (e, i, cs, as, ps, pe)" using R(4) by simp
  note D = fragmentsD[OF fr]
  note A = in_place_assign[OF R(1-3) fr]
  note P = in_place_push[OF R(1-3) fr]
  have len: "length (objs h) \<le> length (objs h1)" by (rule R(6))
  have other_assign: "fragments (set_obj h1 a x) b = fragments h b"
    if "b < length (objs h)" "b \<noteq> a" for b x
    using that R(5) by (simp add: fragments_set_obj_other)
  have other_push: "fragments (push h1 (nameCl (obj h1 a)) v) b = fragments h b"
    "fragments (push h1 (nameAt (obj h1 a)) v) b = fragments h b"
    "fragments (push h1 (namePC (obj h1 a)) v) b = fragments h b"
    if "b < length (objs h)" "b \<noteq> a" for b v
    using that R(5) len in_place_push_other[OF R(1,2), of b] by simp_all
  have "heap_ok h' \<and> a < length (objs h') \<and> 
    fragments h' a = snd (frag_step (fragments h this) f) \<and>
    r = (case fst (frag_step (fragments h this) f) of None \<Rightarrow> Inr a | Some e \<Rightarrow> Inl e) \<and>
    (\<forall>b. b < length (objs h) \<longrightarrow> b \<noteq> a \<longrightarrow> fragments h' b = fragments h b) \<and>
    length (objs h) \<le> length (objs h')"
  proof (cases f)
    case (Element v)
    then show ?thesis
      using assms(3) rc fr0 fr D A R(1,2,5) len other_assign
      by (auto simp: element_def split: if_splits)
  next
    case (Id v)
    then show ?thesis
      using assms(3) rc fr0 fr D A R(1,2,5) len other_assign
      by (auto simp: id_sel_def split: if_splits)
  next
    case (Class v)
    then show ?thesis
      using assms(3) rc fr0 fr D P R(1,2,5) len other_push
      by (auto simp: class_sel_def split: if_splits)
  next
    case (Attr v)
    then show ?thesis
      using assms(3) rc fr0 fr D P R(1,2,5) len other_push heap_ok_refs[OF R(1,2)]
      by (auto simp: attr_def Let_def split: if_splits)
  next
    case (PseudoClass v)
    then show ?thesis
      using assms(3) rc fr0 fr D P R(1,2,5) len other_push
      by (auto simp: pseudoClass_def split: if_splits)
  next
    case (PseudoElement v)
    then show ?thesis
      using assms(3) rc fr0 fr D A R(1,2,5) len other_assign
      by (auto simp: pseudoElement_def split: if_splits)
  qed
  then show thesis using that[of a] R(3,7,8) by blast
qed

section \<open>Chains and rendering\<close>

lemma chain_props:
  assumes "heap_ok h" "this < length (objs h)" "chain h this fs = (r, h')"
  shows "heap_ok h' \<and> length (objs h) \<le> length (objs h') \<and>
    (case fst (frag_chain (fragments h this) fs) of
       Some e \<Rightarrow> r = Inl e
     | None \<Rightarrow> \<exists>a. r = Inr a \<and> a < length (objs h') \<and>
                fragments h' a = snd (frag_chain (fragments h this) fs))"
  using assms
proof (induction fs arbitrary: h this)
  case Nil
  then show ?case by auto
next
  case (Cons f fs)
  obtain r1 h1 where ad: "add h this f = (r1, h1)" by (cases "add h this f")
  from add_props[OF Cons.prems(1,2) ad] obtain a where a:
    "heap_ok h1" "a < length (objs h1)"
    "fragments h1 a = snd (frag_step (fragments h this) f)"
    "r1 = (case fst (frag_step (fragments h this) f) of None \<Rightarrow> Inr a | Some e \<Rightarrow> Inl e)"
    "length (objs h) \<le> length (objs h1)"
    by blast
  obtain eo s1 where st: "frag_step (fragments h this) f = (eo, s1)"
    by (cases "frag_step (fragments h this) f")
  show ?case
  proof (cases eo)
    case None
    then have "chain h1 a fs = (r, h')"
      using Cons.prems(3) ad a(4) st by simp
    from Cons.IH[OF a(1,2) this] show ?thesis
      using a(3,5) st None by (simp split: option.splits)
  next
    case (Some e)
    then show ?thesis
      using Cons.prems(3) ad a(1,4,5) st by auto
  qed
qed

lemma frag_chain_classes:
  "frag_chain (e, i, cs0, [], [], []) (map Class cs @ rest) =
   frag_chain (e, i, cs0 @ cs, [], [], []) rest"
  by (induction cs arbitrary: cs0) simp_all

lemma frag_chain_attributes:
  "frag_chain (e, i, cs, as0, [], []) (map Attr as @ rest) =
   frag_chain (e, i, cs, as0 @ as, [], []) rest"
  by (induction as arbitrary: as0) simp_all

lemma frag_chain_pseudo_classes:
  "frag_chain (e, i, cs, as, ps0, []) (map PseudoClass ps @ rest) =
   frag_chain (e, i, cs, as, ps0 @ ps, []) rest"
  by (induction ps arbitrary: ps0) simp_all

lemma frag_chain_grammar_order:
  "frag_chain no_fragments (grammar_order e i cs as ps pe) =
   (None, (case e of None \<Rightarrow> [] | Some v \<Rightarrow> v, case i of None \<Rightarrow> [] | Some v \<Rightarrow> v, cs, as, ps,
           case pe of None \<Rightarrow> [] | Some v \<Rightarrow> v))"
proof -
  have tail: "frag_chain (e', i', [], [], [], []) (map Class cs @ map Attr as @ map PseudoClass ps @
               (case pe of None \<Rightarrow> [] | Some v \<Rightarrow> [PseudoElement v])) =
        (None, (e', i', cs, as, ps, case pe of None \<Rightarrow> [] | Some v \<Rightarrow> v))" for e' i'
    using frag_chain_classes[of e' i' "[]" cs] frag_chain_attributes[of e' i' cs "[]" as]
      frag_chain_pseudo_classes[of e' i' cs as "[]" ps]
    by (simp split: option.splits)
  show ?thesis
    by (cases e; cases i) (simp_all add: grammar_order_def no_fragments_def tail)
qed

lemma frag_string_grammar_order:
  "frag_string (case e of None \<Rightarrow> [] | Some v \<Rightarrow> v, case i of None \<Rightarrow> [] | Some v \<Rightarrow> v,
     cs, as, ps, case pe of None \<Rightarrow> [] | Some v \<Rightarrow> v) =
   expected_rendering e (stored i) cs as ps (stored pe)"
  by (auto simp: expected_rendering_def stored_def append_single split: option.splits)

text \<open>
  C1 (amended). A chain of fragment-adding calls in grammar order, started on the template
  or on any object with no fragments, never throws, and \<^verbatim>\<open>stringify\<close> then returns the
  element, \<open>#\<close> and the id, \<open>.\<close> and each class, each attribute in brackets, \<open>:\<close> and
  each pseudo-class, \<open>::\<close> and the pseudo-element, in this order, where an id or a
  pseudo-element that was set to the empty string counts as absent.
\<close>

theorem grammar_order_renders:
  assumes "heap_ok h" "this < length (objs h)" "fragments h this = no_fragments"
  shows "render_chain h this (grammar_order e i cs as ps pe) =
    Inr (expected_rendering e (stored i) cs as ps (stored pe))"
proof -
  obtain r h' where c: "chain h this (grammar_order e i cs as ps pe) = (r, h')"
    by (cases "chain h this (grammar_order e i cs as ps pe)")
  from chain_props[OF assms(1,2) c] obtain a where a: "r = Inr a"
    "fragments h' a = (case e of None \<Rightarrow> [] | Some v \<Rightarrow> v, case i of None \<Rightarrow> [] | Some v \<Rightarrow> v,
       cs, as, ps, case pe of None \<Rightarrow> [] | Some v \<Rightarrow> v)"
    by (auto simp: assms(3) frag_chain_grammar_order)
  have "render_chain h this (grammar_order e i cs as ps pe) = Inr (frag_string (fragments h' a))"
    using c a(1) by (simp add: render_chain_def stringify_builder_def builder_string_frag)
  then show ?thesis
    using a(2) frag_string_grammar_order[of e i cs as ps pe] by simp
qed

theorem empty_id_counterexample:
  "render_chain init_heap template (grammar_order None (Some []) [] [] [] None) = Inr [] \<and>
   expected_rendering None (Some []) [] [] [] None = ''#'' \<and>
   render_chain init_heap template (grammar_order None (Some []) [] [] [] None) \<noteq>
     Inr (expected_rendering None (Some []) [] [] [] None)"
  by (simp add: render_chain_def grammar_order_def expected_rendering_def id_sel_def
      receiver_def clear_eq init_heap_def template_def obj_def arr_def set_obj_def
      stringify_builder_def builder_string_def)

theorem grammar_order_renders_witness:
  "heap_ok init_heap \<and> template < length (objs init_heap) \<and>
   fragments init_heap template = no_fragments \<and>
   render_chain init_heap template
     (grammar_order (Some ''div'') (Some ''main'') [''container'', ''draggable''] [''lang'']
        [''hover'', ''focus''] (Some ''after'')) =
   Inr ''div#main.container.draggable[lang]:hover:focus::after''"
  using grammar_order_renders[where h = init_heap and this = template and e = "Some ''div''"
      and i = "Some ''main''" and cs = "[''container'', ''draggable'']" and as = "[''lang'']"
      and ps = "[''hover'', ''focus'']" and pe = "Some ''after''"]
    heap_ok_init heap_ok_template[OF heap_ok_init]
  by (simp add: expected_rendering_def stored_def)

lemma heap_ok_chain:
  "heap_ok h \<Longrightarrow> this < length (objs h) \<Longrightarrow> heap_ok (snd (chain h this fs))"
  using chain_props[of h this fs "fst (chain h this fs)" "snd (chain h this fs)"] by simp

lemma heap_ok_heap_after: "heap_ok (heap_after fs)"
  unfolding heap_after_def by (rule heap_ok_chain[OF heap_ok_init heap_ok_template(1)[OF heap_ok_init]])

text \<open>The equations that evaluate the methods on a given store.\<close>

lemmas store_defs = id_sel_def element_def class_sel_def attr_def pseudoClass_def pseudoElement_def
  receiver_def clear_eq init_heap_def template_def obj_def arr_def set_obj_def push_def
  stringify_builder_def builder_string_def reset_eq
  classes_def attributes_def pseudoClasses_def fragments_def no_fragments_def Let_def
  heap_after_def combine_def run_def

section \<open>Errors of the fragment methods\<close>

text \<open>
  C2. On a builder object of a well-formed store, \<^verbatim>\<open>attr\<close> throws the order error
  exactly when a pseudo-class has been added or the pseudo-element of the object is not
  the empty string; but it has pushed its argument by then, and the attributes of the
  object after the failed call are the attributes before it followed by the argument.
\<close>

theorem attr_pushes_before_it_throws:
  assumes "heap_ok h" "this < length (objs h)"
  shows "(fst (attr h this v) = Inl OutOfOrderError \<longleftrightarrow>
            pseudoClasses h this \<noteq> [] \<or> namePE (obj h this) \<noteq> []) \<and>
         (fst (attr h this v) = Inl OutOfOrderError \<longrightarrow>
            attributes (snd (attr h this v)) this = attributes h this @ [v])"
proof -
  obtain e i cs as ps pe where fr: "fragments h this = (e, i, cs, as, ps, pe)"
    by (cases "fragments h this")
  note D = fragmentsD[OF fr]
  from add_props[OF assms, of "Attr v" "fst (attr h this v)" "snd (attr h this v)"]
  obtain a where a: "this = template \<Longrightarrow> a = length (objs h)" "this \<noteq> template \<Longrightarrow> a = this"
    "fragments (snd (attr h this v)) a = snd (frag_step (fragments h this) (Attr v))"
    "fst (attr h this v) =
      (case fst (frag_step (fragments h this) (Attr v)) of None \<Rightarrow> Inr a | Some e \<Rightarrow> Inl e)"
    by auto
  have iff: "fst (attr h this v) = Inl OutOfOrderError \<longleftrightarrow> ps \<noteq> [] \<or> pe \<noteq> []"
    using a(4) fr by auto
  have "attributes (snd (attr h this v)) this = as @ [v]" if "ps \<noteq> [] \<or> pe \<noteq> []"
  proof -
    have "this \<noteq> template"
      using that fr heap_ok_template(2)[OF assms(1)] by (auto simp: no_fragments_def)
    then have "fragments (snd (attr h this v)) this = (e, i, cs, as @ [v], ps, pe)"
      using a(2,3) fr by auto
    from fragmentsD(4)[OF this] show ?thesis by (simp add: attributes_def)
  qed
  then show ?thesis using iff D by (auto simp: pseudoClasses_def attributes_def)
qed

theorem attr_pushes_before_it_throws_witness:
  "heap_ok (heap_after [Element ''a'', PseudoClass ''focus'']) \<and>
   1 < length (objs (heap_after [Element ''a'', PseudoClass ''focus''])) \<and>
   pseudoClasses (heap_after [Element ''a'', PseudoClass ''focus'']) 1 = [''focus''] \<and>
   attributes (heap_after [Element ''a'', PseudoClass ''focus'']) 1 = [] \<and>
   fst (attr (heap_after [Element ''a'', PseudoClass ''focus'']) 1 ''x'') = Inl OutOfOrderError \<and>
   attributes (snd (attr (heap_after [Element ''a'', PseudoClass ''focus'']) 1 ''x'')) 1 = [''x'']"
  using attr_pushes_before_it_throws[of "heap_after [Element ''a'', PseudoClass ''focus'']" 1 "''x''"]
    heap_ok_heap_after[of "[Element ''a'', PseudoClass ''focus'']"]
  by (simp add: store_defs)

text \<open>
  C4 (amended). The code stores the empty string for an absent element, id or
  pseudo-element, so one of them is set when the field is not the empty string. On a
  builder object of a well-formed store: \<^verbatim>\<open>id\<close> throws the order error when a class has
  been added and no id is set, and the duplicate error when an id is set;
  \<^verbatim>\<open>element\<close> throws the duplicate error when an element is set; \<^verbatim>\<open>pseudoElement\<close>
  throws the duplicate error when a pseudo-element is set.
\<close>

theorem violations:
  assumes "heap_ok h" "this < length (objs h)"
  shows "(nameID (obj h this) = [] \<and> classes h this \<noteq> [] \<longrightarrow>
            fst (id_sel h this v) = Inl OutOfOrderError) \<and>
         (nameID (obj h this) \<noteq> [] \<longrightarrow> fst (id_sel h this v) = Inl DuplicateFragmentError) \<and>
         (nameEl (obj h this) \<noteq> [] \<longrightarrow> fst (element h this v) = Inl DuplicateFragmentError) \<and>
         (namePE (obj h this) \<noteq> [] \<longrightarrow>
            fst (pseudoElement h this v) = Inl DuplicateFragmentError)"
proof -
  obtain e i cs as ps pe where fr: "fragments h this = (e, i, cs, as, ps, pe)"
    by (cases "fragments h this")
  note D = fragmentsD[OF fr]
  have err: "fst (add h this f) = Inl x" if "fst (frag_step (fragments h this) f) = Some x" for f x
    using add_props[OF assms, of f "fst (add h this f)" "snd (add h this f)"] that
    by auto
  from err[of "Id v"] err[of "Element v"] err[of "PseudoElement v"]
  show ?thesis using fr D by (auto simp: classes_def)
qed

theorem violations_witness:
  "heap_ok (heap_after [Element ''div'', Class ''c'', PseudoElement ''after'']) \<and>
   1 < length (objs (heap_after [Element ''div'', Class ''c'', PseudoElement ''after''])) \<and>
   nameID (obj (heap_after [Element ''div'', Class ''c'', PseudoElement ''after'']) 1) = [] \<and>
   classes (heap_after [Element ''div'', Class ''c'', PseudoElement ''after'']) 1 \<noteq> [] \<and>
   nameEl (obj (heap_after [Element ''div'', Class ''c'', PseudoElement ''after'']) 1) \<noteq> [] \<and>
   namePE (obj (heap_after [Element ''div'', Class ''c'', PseudoElement ''after'']) 1) \<noteq> [] \<and>
   fst (id_sel (heap_after [Element ''div'', Class ''c'', PseudoElement ''after'']) 1 ''x'') =
     Inl OutOfOrderError \<and>
   fst (element (heap_after [Element ''div'', Class ''c'', PseudoElement ''after'']) 1 ''x'') =
     Inl DuplicateFragmentError \<and>
   fst (pseudoElement (heap_after [Element ''div'', Class ''c'', PseudoElement ''after'']) 1 ''x'') =
     Inl DuplicateFragmentError \<and>
   heap_ok (heap_after [Element ''div'', Id ''main'']) \<and>
   1 < length (objs (heap_after [Element ''div'', Id ''main''])) \<and>
   nameID (obj (heap_after [Element ''div'', Id ''main'']) 1) \<noteq> [] \<and>
   fst (id_sel (heap_after [Element ''div'', Id ''main'']) 1 ''x'') = Inl DuplicateFragmentError"
  using violations[of "heap_after [Element ''div'', Class ''c'', PseudoElement ''after'']" 1 "''x''"]
    violations[of "heap_after [Element ''div'', Id ''main'']" 1 "''x''"]
    heap_ok_heap_after[of "[Element ''div'', Class ''c'', PseudoElement ''after'']"]
    heap_ok_heap_after[of "[Element ''div'', Id ''main'']"]
  by (simp add: store_defs)

text \<open>
  With an id already set, \<^verbatim>\<open>id\<close> after a class throws the duplicate error, not the
  order error: the duplicate check comes first. And after \<^verbatim>\<open>element('')\<close> or
  \<^verbatim>\<open>pseudoElement('')\<close> no element or pseudo-element is set: a second call throws
  nothing.
\<close>

theorem violation_law_counterexample:
  "fst (chain init_heap template [Id ''a'', Class ''b'']) = Inr 1 \<and>
   classes (heap_after [Id ''a'', Class ''b'']) 1 = [''b''] \<and>
   fst (id_sel (heap_after [Id ''a'', Class ''b'']) 1 ''c'') = Inl DuplicateFragmentError \<and>
   fst (id_sel (heap_after [Id ''a'', Class ''b'']) 1 ''c'') \<noteq> Inl OutOfOrderError \<and>
   fst (chain init_heap template [Element [], Element ''x'']) = Inr 1 \<and>
   fst (chain init_heap template [PseudoElement [], PseudoElement ''after'']) = Inr 1"
  by (simp add: store_defs)

section \<open>Rendering\<close>

lemma stringify_builder_props:
  assumes "heap_ok h" "this < length (objs h)"
  shows "heap_ok (snd (stringify_builder h this))"
    "length (objs (snd (stringify_builder h this))) = length (objs h)"
    "fst (stringify_builder h this) = frag_string (fragments h this)"
    "\<And>b. b < length (objs h) \<Longrightarrow> fragments (snd (stringify_builder h this)) b =
       (if b = this then no_fragments else fragments h b)"
  using assms heap_ok_reset[OF assms] reset_fragments_self[OF assms(2)]
    reset_fragments_other[OF assms]
  by (simp_all add: stringify_builder_def reset_length builder_string_frag)

lemma stringify_props:
  assumes "heap_ok h" "list_all (\<lambda>a. a < length (objs h)) (leaves s)"
  shows "heap_ok (snd (stringify h s)) \<and> length (objs (snd (stringify h s))) = length (objs h) \<and>
    (\<forall>b < length (objs h). fragments (snd (stringify h s)) b =
       (if b \<in> set (leaves s) then no_fragments else fragments h b))"
  using assms
proof (induction s arbitrary: h)
  case (Simple a)
  then show ?case using stringify_builder_props[of h a] by simp
next
  case (Combined s1 c s2)
  let ?h1 = "snd (stringify h s1)"
  have 1: "heap_ok ?h1" "length (objs ?h1) = length (objs h)"
    "\<forall>b < length (objs h). fragments ?h1 b =
       (if b \<in> set (leaves s1) then no_fragments else fragments h b)"
    using Combined.IH(1)[of h] Combined.prems by simp_all
  have 2: "heap_ok (snd (stringify ?h1 s2))"
    "length (objs (snd (stringify ?h1 s2))) = length (objs ?h1)"
    "\<forall>b < length (objs ?h1). fragments (snd (stringify ?h1 s2)) b =
       (if b \<in> set (leaves s2) then no_fragments else fragments ?h1 b)"
    using Combined.IH(2)[of ?h1] Combined.prems 1 by simp_all
  show ?case using 1 2 by (simp add: split_beta)
qed

lemma stringify_agree:
  assumes "heap_ok h" "heap_ok h'" "list_all (\<lambda>a. a < length (objs h)) (leaves s)"
    "list_all (\<lambda>a. a < length (objs h')) (leaves s)"
    "\<forall>b \<in> set (leaves s). fragments h b = fragments h' b"
  shows "fst (stringify h s) = fst (stringify h' s)"
  using assms
proof (induction s arbitrary: h h')
  case (Simple a)
  then show ?case by (simp add: stringify_builder_props(3))
next
  case (Combined s1 c s2)
  let ?h1 = "snd (stringify h s1)" and ?h1' = "snd (stringify h' s1)"
  have v1: "list_all (\<lambda>a. a < length (objs h)) (leaves s1)"
    "list_all (\<lambda>a. a < length (objs h')) (leaves s1)"
    and v2: "list_all (\<lambda>a. a < length (objs h)) (leaves s2)"
    "list_all (\<lambda>a. a < length (objs h')) (leaves s2)"
    using Combined.prems by simp_all
  have first: "fst (stringify h s1) = fst (stringify h' s1)"
    using Combined.IH(1)[of h h'] Combined.prems by simp
  note P = stringify_props[OF Combined.prems(1) v1(1)] and P' = stringify_props[OF Combined.prems(2) v1(2)]
  have "\<forall>b \<in> set (leaves s2). fragments ?h1 b = fragments ?h1' b"
    using P P' v2 Combined.prems(5) by (auto simp: list_all_iff)
  then have "fst (stringify ?h1 s2) = fst (stringify ?h1' s2)"
    using Combined.IH(2)[of ?h1 ?h1'] P P' v2 by simp
  then show ?case using first by (simp add: split_beta)
qed

text \<open>
  C3. \<^verbatim>\<open>stringify\<close> on a builder object clears it: afterwards the object has no
  element, id, classes, attributes, pseudo-classes or pseudo-element, and a second
  \<^verbatim>\<open>stringify\<close> on it returns the empty string.
\<close>

theorem stringify_clears:
  assumes "this < length (objs h)"
  shows "fragments (snd (stringify h (Simple this))) this = no_fragments \<and>
    fst (stringify (snd (stringify h (Simple this))) (Simple this)) = []"
  using assms reset_fragments_self[OF assms]
  by (simp add: stringify_builder_def builder_string_frag no_fragments_def)

theorem stringify_clears_witness:
  "1 < length (objs (heap_after [Element ''div'', Id ''main''])) \<and>
   fst (stringify (heap_after [Element ''div'', Id ''main'']) (Simple 1)) =
     ''div#main'' \<and>
   fragments (snd (stringify (heap_after [Element ''div'', Id ''main''])
     (Simple 1))) 1 = no_fragments \<and>
   fst (stringify (snd (stringify (heap_after [Element ''div'', Id ''main''])
     (Simple 1))) (Simple 1)) = []"
  using stringify_clears[of 1 "heap_after [Element ''div'', Id ''main'']"]
  by (simp add: store_defs)

text \<open>
  C5 (amended). For two selectors that share no builder object, and any string as the
  symbol, \<^verbatim>\<open>combine(A, symbol, B).stringify()\<close> is the rendering of \<open>A\<close>, a space, the
  symbol, a space, and the rendering of \<open>B\<close>, each rendered on its own in the store in
  which the combined selector is rendered.
\<close>

theorem combine_renders_both:
  assumes "heap_ok h" "list_all (\<lambda>a. a < length (objs h)) (leaves A @ leaves B)"
    "set (leaves A) \<inter> set (leaves B) = {}"
  shows "fst (stringify h (combine A symbol B)) =
    fst (stringify h A) @ '' '' @ symbol @ '' '' @ fst (stringify h B)"
proof -
  have vA: "list_all (\<lambda>a. a < length (objs h)) (leaves A)"
    and vB: "list_all (\<lambda>a. a < length (objs h)) (leaves B)"
    using assms(2) by simp_all
  note P = stringify_props[OF assms(1) vA]
  have "\<forall>b \<in> set (leaves B). fragments (snd (stringify h A)) b = fragments h b"
    using P vB assms(3) by (auto simp: list_all_iff)
  then have "fst (stringify (snd (stringify h A)) B) = fst (stringify h B)"
    using P vB assms(1) by (intro stringify_agree) simp_all
  then show ?thesis by (simp add: combine_def split_beta)
qed

theorem combine_renders_both_witness:
  "heap_ok (snd (chain (heap_after [Element ''div'']) template [Element ''p''])) \<and>
   list_all (\<lambda>a. a < length (objs (snd (chain (heap_after [Element ''div'']) template [Element ''p'']))))
     (leaves (Simple 1) @ leaves (Simple 2)) \<and>
   set (leaves (Simple 1)) \<inter> set (leaves (Simple 2)) = {} \<and>
   fst (stringify (snd (chain (heap_after [Element ''div'']) template [Element ''p'']))
      (combine (Simple 1) ''>'' (Simple 2))) = ''div > p''"
  using combine_renders_both[of "snd (chain (heap_after [Element ''div'']) template [Element ''p''])"
      "Simple 1" "Simple 2" "''>''"]
    heap_ok_chain[OF heap_ok_heap_after, of template "[Element ''div'']" "[Element ''p'']"]
  by (simp add: store_defs)

text \<open>
  When \<open>B\<close> contains the builder object \<open>A\<close>, rendering \<open>A\<close> first clears it, and the
  combined rendering differs from the two renderings joined.
\<close>

theorem combine_shared_counterexample:
  "fst (stringify (snd (chain (heap_after [Element ''div'']) template [Element ''p'']))
      (combine (Simple 1) ''+'' (combine (Simple 1) ''>'' (Simple 2)))) = ''div +  > p'' \<and>
   fst (stringify (snd (chain (heap_after [Element ''div'']) template [Element ''p'']))
      (Simple 1)) = ''div'' \<and>
   fst (stringify (snd (chain (heap_after [Element ''div'']) template [Element ''p'']))
      (combine (Simple 1) ''>'' (Simple 2))) = ''div > p'' \<and>
   fst (stringify (snd (chain (heap_after [Element ''div'']) template [Element ''p'']))
      (combine (Simple 1) ''+'' (combine (Simple 1) ''>'' (Simple 2)))) \<noteq>
   fst (stringify (snd (chain (heap_after [Element ''div'']) template [Element ''p'']))
      (Simple 1)) @ '' '' @ ''+'' @ '' '' @
   fst (stringify (snd (chain (heap_after [Element ''div'']) template [Element ''p'']))
      (combine (Simple 1) ''>'' (Simple 2)))"
  by (simp add: store_defs)

text \<open>
  C7. The nested combination of the documentation renders as the literal given there,
  with three spaces between \<open>tr:nth-of-type(even)\<close> and \<open>td:nth-of-type(even)\<close>.
\<close>

theorem nested_combine_example:
  "run (Combine (Chain [Element ''div'', Id ''main'', Class ''container'', Class ''draggable''])
          ''+''
          (Combine (Chain [Element ''table'', Id ''data''])
             ''~''
             (Combine (Chain [Element ''tr'', PseudoClass ''nth-of-type(even)''])
                '' ''
                (Chain [Element ''td'', PseudoClass ''nth-of-type(even)''])))) =
   Inr ''div#main.container.draggable + table#data ~ tr:nth-of-type(even)   td:nth-of-type(even)''"
  by (simp add: store_defs)

section \<open>Independent chains\<close>

lemma frag_step_no_fragments: "fst (frag_step no_fragments f) = None"
  by (cases f) (simp_all add: no_fragments_def)

lemma exec_props:
  assumes "heap_ok h" "list_all (\<lambda>a. a < length (objs h)) (receivers c)"
  shows "heap_ok (exec h c) \<and> length (objs h) \<le> length (objs (exec h c)) \<and>
    (\<forall>a < length (objs h). a \<notin> set (receivers c) \<longrightarrow> fragments (exec h c) a = fragments h a)"
proof (cases c)
  case (Call_clear this)
  then show ?thesis
    using heap_ok_clear[OF assms(1), of this] clear_fragments_old[OF assms(1), of _ this]
    by (simp add: clear_length)
next
  case (Call_add this f)
  then have v: "this < length (objs h)" using assms(2) by simp
  from add_props[OF assms(1) v, of f "fst (add h this f)" "snd (add h this f)"]
  obtain a where a: "heap_ok (snd (add h this f))"
    "this = template \<Longrightarrow> a = length (objs h)" "this \<noteq> template \<Longrightarrow> a = this"
    "\<And>b. b < length (objs h) \<Longrightarrow> b \<noteq> a \<Longrightarrow> fragments (snd (add h this f)) b = fragments h b"
    "length (objs h) \<le> length (objs (snd (add h this f)))"
    by auto
  have "fragments (snd (add h this f)) b = fragments h b" if "b < length (objs h)" "b \<noteq> this" for b
    using a(2,3) a(4)[of b] that by (cases "this = template") auto
  then show ?thesis using Call_add a(1,5) by simp
next
  case (Call_stringify s)
  then show ?thesis using stringify_props[OF assms(1), of s] assms(2) by simp
qed

lemma exec_all_props:
  assumes "heap_ok h" "calls_ok h cs"
  shows "heap_ok (exec_all h cs) \<and> length (objs h) \<le> length (objs (exec_all h cs)) \<and>
    (\<forall>a < length (objs h). a \<notin> set (concat (map receivers cs)) \<longrightarrow>
       fragments (exec_all h cs) a = fragments h a)"
  using assms
proof (induction cs arbitrary: h)
  case Nil
  then show ?case by simp
next
  case (Cons c cs)
  have v: "list_all (\<lambda>a. a < length (objs h)) (receivers c)" and rest: "calls_ok (exec h c) cs"
    using Cons.prems(2) by simp_all
  note E = exec_props[OF Cons.prems(1) v]
  from E have ok: "heap_ok (exec h c)" by simp
  note I = Cons.IH[OF ok rest]
  show ?case using E I by auto
qed

text \<open>
  C6. In every store that a sequence of public calls (\<^verbatim>\<open>clear\<close>, the fragment methods,
  \<^verbatim>\<open>stringify\<close>) leads to from a well-formed store, such as the initial one: the template
  has no fragments; a fragment method called on the template returns a new object and
  leaves the template without fragments; and an object on which none of the calls was
  made renders as it did before the calls.
\<close>

theorem chains_are_isolated:
  assumes "heap_ok h" "calls_ok h cs"
  shows "fragments (exec_all h cs) template = no_fragments \<and>
    (\<forall>f. fst (add (exec_all h cs) template f) = Inr (length (objs (exec_all h cs))) \<and>
         fragments (snd (add (exec_all h cs) template f)) template = no_fragments) \<and>
    (\<forall>a < length (objs h). a \<notin> set (concat (map receivers cs)) \<longrightarrow>
       fst (stringify (exec_all h cs) (Simple a)) = fst (stringify h (Simple a)))"
proof -
  let ?h = "exec_all h cs"
  note E = exec_all_props[OF assms]
  from E have ok: "heap_ok ?h" by simp
  have t: "template < length (objs ?h)" using ok by (rule heap_ok_template)
  have clone: "fst (add ?h template f) = Inr (length (objs ?h)) \<and>
      fragments (snd (add ?h template f)) template = no_fragments" for f
  proof -
    from add_props[OF ok t, of f "fst (add ?h template f)" "snd (add ?h template f)"]
    obtain a where a: "heap_ok (snd (add ?h template f))" "a = length (objs ?h)"
      "fst (add ?h template f) =
        (case fst (frag_step (fragments ?h template) f) of None \<Rightarrow> Inr a | Some e \<Rightarrow> Inl e)"
      by auto
    show ?thesis
      using a heap_ok_template(2)[OF ok] heap_ok_template(2)[OF a(1)]
      by (simp add: frag_step_no_fragments)
  qed
  have "fst (stringify ?h (Simple a)) = fst (stringify h (Simple a))"
    if "a < length (objs h)" "a \<notin> set (concat (map receivers cs))" for a
    using E that by (simp add: stringify_builder_def builder_string_frag)
  then show ?thesis using clone heap_ok_template(2)[OF ok] by blast
qed

theorem chains_are_isolated_witness:
  "heap_ok (heap_after [Element ''div'', Id ''main'']) \<and>
   calls_ok (heap_after [Element ''div'', Id ''main''])
     [Call_add template (Element ''table''), Call_add 2 (Id ''data''), Call_add 2 (Attr ''x''),
      Call_stringify (Simple 2), Call_clear 2, Call_stringify (Simple template)] \<and>
   1 < length (objs (heap_after [Element ''div'', Id ''main''])) \<and>
   1 \<notin> set (concat (map receivers
     [Call_add template (Element ''table''), Call_add 2 (Id ''data''), Call_add 2 (Attr ''x''),
      Call_stringify (Simple 2), Call_clear 2, Call_stringify (Simple template)])) \<and>
   fst (stringify (heap_after [Element ''div'', Id ''main'']) (Simple 1)) = ''div#main'' \<and>
   fst (stringify (exec_all (heap_after [Element ''div'', Id ''main''])
     [Call_add template (Element ''table''), Call_add 2 (Id ''data''), Call_add 2 (Attr ''x''),
      Call_stringify (Simple 2), Call_clear 2, Call_stringify (Simple template)]) (Simple 1)) =
     ''div#main'' \<and>
   fragments (exec_all (heap_after [Element ''div'', Id ''main''])
     [Call_add template (Element ''table''), Call_add 2 (Id ''data''), Call_add 2 (Attr ''x''),
      Call_stringify (Simple 2), Call_clear 2, Call_stringify (Simple template)]) template =
     no_fragments \<and>
   fst (add (exec_all (heap_after [Element ''div'', Id ''main''])
     [Call_add template (Element ''table''), Call_add 2 (Id ''data''), Call_add 2 (Attr ''x''),
      Call_stringify (Simple 2), Call_clear 2, Call_stringify (Simple template)]) template
     (Class ''c'')) = Inr 4"
  using chains_are_isolated[of "heap_after [Element ''div'', Id ''main'']"
     "[Call_add template (Element ''table''), Call_add 2 (Id ''data''), Call_add 2 (Attr ''x''),
      Call_stringify (Simple 2), Call_clear 2, Call_stringify (Simple template)]"]
    heap_ok_heap_after[of "[Element ''div'', Id ''main'']"]
  by (simp add: store_defs)

end
